theory Spec2Isabelle
  imports Main
begin

section \<open>Traffic light phase and the message queue (TrafficLight.h)\<close>

text \<open>
  \<^verbatim>\<open>enum class TrafficLightPhase { red, green };\<close>
\<close>

datatype TrafficLightPhase = red | green

text \<open>
  \<^verbatim>\<open>MessageQueue<T>\<close> holds a \<^verbatim>\<open>std::deque<T> _queue\<close>, a mutex and a condition
  variable. Every operation runs under the mutex, so each is one atomic step on the
  deque, modelled as a list whose head is the front of the deque.

  \<^verbatim>\<open>send\<close> is \<^verbatim>\<open>_queue.push_back(std::move(msg)); _condition.notify_one();\<close>.
\<close>

definition send :: "'a list \<Rightarrow> 'a \<Rightarrow> 'a list" where
  "send queue msg = queue @ [msg]"

text \<open>
  \<^verbatim>\<open>receive\<close> waits on the condition variable until \<^verbatim>\<open>!_queue.empty()\<close>, then takes
  \<^verbatim>\<open>_queue.front()\<close> and does \<^verbatim>\<open>_queue.pop_front()\<close>. On an empty deque the caller
  stays blocked in \<^verbatim>\<open>wait\<close>: the result \<open>None\<close>. Otherwise the result is the message
  and the remaining deque.
\<close>

definition receive :: "'a list \<Rightarrow> ('a \<times> 'a list) option" where
  "receive queue = (case queue of [] \<Rightarrow> None | msg # rest \<Rightarrow> Some (msg, rest))"

text \<open>
  A schedule of producer and consumer calls on one queue. A \<open>Receive\<close> that finds the
  deque empty is still waiting at that point of the schedule and takes nothing. The second
  component collects the values that \<^verbatim>\<open>receive\<close> returned, in the order of the returns.
\<close>

datatype 'a channel_op = Send 'a | Receive

fun channel_step :: "'a channel_op \<Rightarrow> 'a list \<times> 'a list \<Rightarrow> 'a list \<times> 'a list" where
  "channel_step (Send msg) (queue, got) = (send queue msg, got)"
| "channel_step Receive (queue, got) =
     (case receive queue of
        None \<Rightarrow> (queue, got)
      | Some (msg, rest) \<Rightarrow> (rest, got @ [msg]))"

fun channel_run :: "'a channel_op list \<Rightarrow> 'a list \<times> 'a list \<Rightarrow> 'a list \<times> 'a list" where
  "channel_run [] st = st"
| "channel_run (op # ops) st = channel_run ops (channel_step op st)"

text \<open>The messages a schedule sends, in order.\<close>

fun sent_by :: "'a channel_op list \<Rightarrow> 'a list" where
  "sent_by [] = []"
| "sent_by (Send msg # ops) = msg # sent_by ops"
| "sent_by (Receive # ops) = sent_by ops"

section \<open>The traffic light (TrafficLight.cpp)\<close>

text \<open>
  The members of \<^verbatim>\<open>TrafficLight\<close> that the code reads and writes: \<^verbatim>\<open>_currentPhase\<close>
  and \<^verbatim>\<open>_messageQueue\<close>. The constructor sets \<^verbatim>\<open>_currentPhase = red\<close>; the queue
  starts empty.
\<close>

record TrafficLight =
  currentPhase :: TrafficLightPhase
  messageQueue :: "TrafficLightPhase list"

definition TrafficLight_new :: TrafficLight where
  "TrafficLight_new = \<lparr>currentPhase = red, messageQueue = []\<rparr>"

definition getCurrentPhase :: "TrafficLight \<Rightarrow> TrafficLightPhase" where
  "getCurrentPhase light = currentPhase light"

text \<open>
  \<^verbatim>\<open>waitForGreen\<close>:
  \<^verbatim>\<open>while (true) { phase = _messageQueue.receive(); if (phase == green) return; }\<close>
  The loop runs on the values the queue holds. It ends in \<open>Returned\<close> with the light as
  the call leaves it, or in \<open>Blocked\<close> when a \<^verbatim>\<open>receive\<close> finds the queue empty: the
  caller is then waiting inside \<^verbatim>\<open>receive\<close> for the next \<^verbatim>\<open>send\<close>.
\<close>

datatype 'a outcome = Returned 'a | Blocked 'a

function waitForGreen :: "TrafficLight \<Rightarrow> TrafficLight outcome" where
  "waitForGreen light =
     (case receive (messageQueue light) of
        None \<Rightarrow> Blocked light
      | Some (phase, rest) \<Rightarrow>
          if phase = green then Returned (light\<lparr>messageQueue := rest\<rparr>)
          else waitForGreen (light\<lparr>messageQueue := rest\<rparr>))"
  by pat_completeness auto
termination
  by (relation "measure (\<lambda>light. length (messageQueue light))")
     (auto simp: receive_def split: list.splits)

declare waitForGreen.simps [simp del]

text \<open>
  \<^verbatim>\<open>cycleThroughPhases\<close>. The locals of the thread are \<^verbatim>\<open>cycleDuration\<close> (an
  \<^verbatim>\<open>int\<close>, drawn from \<^verbatim>\<open>std::uniform_int_distribution<int>(4000, 6000)\<close>) and
  \<^verbatim>\<open>lastUpdate\<close> (a reading of \<^verbatim>\<open>system_clock\<close>, here in milliseconds). What one
  pass through the loop body takes from outside is a \<open>tick\<close>: the clock reading of line
  152, the clock reading of line 188 and the value \<^verbatim>\<open>distribution(eng)\<close> yields at line
  191; the last two are used only if the pass toggles. Clock readings and durations are
  far from the limits of \<^verbatim>\<open>long\<close>, so they are integers.
\<close>

record cycle_locals =
  cycleDuration :: int
  lastUpdate :: int

record tick =
  now_check :: int
  now_reset :: int
  draw :: int

text \<open>Lines 166 to 173: red becomes green, anything else becomes red.\<close>

definition toggle :: "TrafficLightPhase \<Rightarrow> TrafficLightPhase" where
  "toggle phase = (if phase = red then green else red)"

text \<open>One pass through the body of the \<^verbatim>\<open>while (true)\<close> loop, lines 142 to 192.\<close>

definition cycle_iteration ::
  "tick \<Rightarrow> TrafficLight \<times> cycle_locals \<Rightarrow> TrafficLight \<times> cycle_locals" where
  "cycle_iteration t st =
     (case st of (light, loc) \<Rightarrow>
        let timeSinceLastUpdate = now_check t - lastUpdate loc in
        if timeSinceLastUpdate \<ge> cycleDuration loc then
          let light1 = light\<lparr>currentPhase := toggle (currentPhase light)\<rparr>;
              light2 = light1\<lparr>messageQueue := send (messageQueue light1) (currentPhase light1)\<rparr>
          in (light2, \<lparr>cycleDuration = draw t, lastUpdate = now_reset t\<rparr>)
        else (light, loc))"

text \<open>
  The function from its first line: the first draw and the first clock reading initialise
  the locals (lines 120 and 129), then the loop runs; a finite list of ticks is a finite
  prefix of the endless loop.
\<close>

definition cycleThroughPhases ::
  "int \<Rightarrow> int \<Rightarrow> tick list \<Rightarrow> TrafficLight \<Rightarrow> TrafficLight \<times> cycle_locals" where
  "cycleThroughPhases firstDraw startTime ticks light =
     foldl (\<lambda>st t. cycle_iteration t st)
       (light, \<lparr>cycleDuration = firstDraw, lastUpdate = startTime\<rparr>) ticks"

text \<open>
  The passes of a run in which the loop changed the phase, found by looking at the light
  before and after each pass.
\<close>

fun toggling :: "tick list \<Rightarrow> TrafficLight \<times> cycle_locals \<Rightarrow> tick list" where
  "toggling [] st = []"
| "toggling (t # ts) st =
     (if currentPhase (fst (cycle_iteration t st)) \<noteq> currentPhase (fst st)
      then t # toggling ts (cycle_iteration t st)
      else toggling ts (cycle_iteration t st))"

text \<open>
  The intervals between consecutive toggles, from the clock readings of the toggling
  passes alone: from the reading taken after one toggle (line 188; for the first interval
  the reading of line 129, before the loop) to the reading taken before the next toggle
  (line 152). A toggle (lines 166 to 173) lies between the two readings of its pass, so on
  a clock that does not run backwards two consecutive toggles are at least this far apart.
  Each interval is paired with the dwell duration drawn for it: the draw of line 120 for
  the first, then the draw of line 191 of the pass that began the interval.
\<close>

fun dwell_intervals :: "int \<Rightarrow> int \<Rightarrow> tick list \<Rightarrow> (int \<times> int) list" where
  "dwell_intervals since drawn [] = []"
| "dwell_intervals since drawn (t # ts) =
     (now_check t - since, drawn) # dwell_intervals (now_reset t) (draw t) ts"

text \<open>
  The range of \<^verbatim>\<open>std::uniform_int_distribution<int> distribution(4000, 6000)\<close>: the
  standard library returns an \<^verbatim>\<open>int\<close> between the two bounds, both included.
\<close>

definition in_dwell_range :: "int \<Rightarrow> bool" where
  "in_dwell_range d \<longleftrightarrow> 4000 \<le> d \<and> d \<le> 6000"

text \<open>
  The sequence the specification expects on the channel: phases that alternate, from a
  given first one.
\<close>

fun alternation :: "TrafficLightPhase \<Rightarrow> nat \<Rightarrow> TrafficLightPhase list" where
  "alternation phase 0 = []"
| "alternation phase (Suc n) = phase # alternation (toggle phase) n"

section \<open>The waiting queue (Intersection.cpp)\<close>

text \<open>
  A \<^verbatim>\<open>std::promise<void>\<close> is a handle on a shared state that the matching
  \<^verbatim>\<open>std::future\<close> waits on. The handle is a number; the shared states whose value has
  been set are kept in a list, in the order of the \<^verbatim>\<open>set_value\<close> calls.
  \<^verbatim>\<open>set_value\<close> on a state that already holds a value throws
  \<^verbatim>\<open>std::future_error\<close>. Reading \<^verbatim>\<open>begin()\<close> of an empty vector has no defined
  behaviour.
\<close>

type_synonym promise = nat

datatype error = EmptyVector | PromiseAlreadySatisfied

definition set_value :: "promise \<Rightarrow> promise list \<Rightarrow> error + promise list" where
  "set_value p fulfilled =
     (if p \<in> set fulfilled then Inl PromiseAlreadySatisfied else Inr (fulfilled @ [p]))"

record 'v WaitingVehicles =
  vehicles :: "'v list"
  promises :: "promise list"

definition WaitingVehicles_new :: "'v WaitingVehicles" where
  "WaitingVehicles_new = \<lparr>vehicles = [], promises = []\<rparr>"

text \<open>\<^verbatim>\<open>return _vehicles.size();\<close> as an \<^verbatim>\<open>int\<close>.\<close>

definition getSize :: "'v WaitingVehicles \<Rightarrow> int" where
  "getSize wv = int (length (vehicles wv))"

definition pushBack :: "'v WaitingVehicles \<Rightarrow> 'v \<Rightarrow> promise \<Rightarrow> 'v WaitingVehicles" where
  "pushBack wv vehicle prms =
     wv\<lparr>vehicles := vehicles wv @ [vehicle], promises := promises wv @ [prms]\<rparr>"

text \<open>
  \<^verbatim>\<open>permitEntryToFirstInQueue\<close>, in the order of the source: the first promise is
  dereferenced and its value set, then the front of \<^verbatim>\<open>_vehicles\<close> is erased, then the
  front of \<^verbatim>\<open>_promises\<close>. The second argument and result is the list of shared states
  that hold a value.
\<close>

definition permitEntryToFirstInQueue ::
  "'v WaitingVehicles \<Rightarrow> promise list \<Rightarrow> error + ('v WaitingVehicles \<times> promise list)" where
  "permitEntryToFirstInQueue wv fulfilled =
     (case promises wv of
        [] \<Rightarrow> Inl EmptyVector
      | firstPromise # restPromises \<Rightarrow>
          (case set_value firstPromise fulfilled of
             Inl e \<Rightarrow> Inl e
           | Inr fulfilled' \<Rightarrow>
               (case vehicles wv of
                  [] \<Rightarrow> Inl EmptyVector
                | firstVehicle # restVehicles \<Rightarrow>
                    Inr (wv\<lparr>vehicles := restVehicles, promises := restPromises\<rparr>, fulfilled'))))"

text \<open>Sequences of calls on one \<^verbatim>\<open>WaitingVehicles\<close>; the first error ends the run.\<close>

datatype 'v queue_op = PushBack 'v promise | PermitEntry

fun queue_step ::
  "'v queue_op \<Rightarrow> 'v WaitingVehicles \<times> promise list \<Rightarrow> error + ('v WaitingVehicles \<times> promise list)"
  where
  "queue_step (PushBack vehicle prms) (wv, fulfilled) = Inr (pushBack wv vehicle prms, fulfilled)"
| "queue_step PermitEntry (wv, fulfilled) = permitEntryToFirstInQueue wv fulfilled"

fun queue_run ::
  "'v queue_op list \<Rightarrow> 'v WaitingVehicles \<times> promise list \<Rightarrow> error + ('v WaitingVehicles \<times> promise list)"
  where
  "queue_run [] st = Inr st"
| "queue_run (op # ops) st =
     (case queue_step op st of Inl e \<Rightarrow> Inl e | Inr st' \<Rightarrow> queue_run ops st')"

text \<open>The entries a sequence of calls pushes, in order, and the number of its grants.\<close>

fun pushed :: "'v queue_op list \<Rightarrow> ('v \<times> promise) list" where
  "pushed [] = []"
| "pushed (PushBack vehicle prms # ops) = (vehicle, prms) # pushed ops"
| "pushed (PermitEntry # ops) = pushed ops"

fun grants :: "'v queue_op list \<Rightarrow> nat" where
  "grants [] = 0"
| "grants (PushBack vehicle prms # ops) = grants ops"
| "grants (PermitEntry # ops) = Suc (grants ops)"

section \<open>The intersection (Intersection.cpp)\<close>

text \<open>
  A street is read only through \<^verbatim>\<open>getID()\<close>. The members of \<^verbatim>\<open>Intersection\<close> that
  the code uses are \<^verbatim>\<open>_streets\<close>, \<^verbatim>\<open>_waitingVehicles\<close>, \<^verbatim>\<open>_trafficLight\<close> and
  \<^verbatim>\<open>_isBlocked\<close>; the constructor sets \<^verbatim>\<open>_isBlocked = false\<close>.
\<close>

record Street =
  street_id :: int

definition getID :: "Street \<Rightarrow> int" where
  "getID street = street_id street"

record 'v Intersection =
  streets :: "Street list"
  waitingVehicles :: "'v WaitingVehicles"
  trafficLight :: TrafficLight
  isBlocked :: bool

definition Intersection_new :: "'v Intersection" where
  "Intersection_new =
     \<lparr>streets = [], waitingVehicles = WaitingVehicles_new,
      trafficLight = TrafficLight_new, isBlocked = False\<rparr>"

definition addStreet :: "'v Intersection \<Rightarrow> Street \<Rightarrow> 'v Intersection" where
  "addStreet i street = i\<lparr>streets := streets i @ [street]\<rparr>"

text \<open>
  \<^verbatim>\<open>queryStreets\<close>: the loop over \<^verbatim>\<open>_streets\<close> with the vector \<^verbatim>\<open>outgoings\<close> as
  accumulator. The function returns the vector together with the intersection as the call
  leaves it.
\<close>

fun queryStreets_loop :: "Street \<Rightarrow> Street list \<Rightarrow> Street list \<Rightarrow> Street list" where
  "queryStreets_loop incoming [] outgoings = outgoings"
| "queryStreets_loop incoming (it # its) outgoings =
     queryStreets_loop incoming its
       (if getID incoming \<noteq> getID it then outgoings @ [it] else outgoings)"

definition queryStreets :: "'v Intersection \<Rightarrow> Street \<Rightarrow> Street list \<times> 'v Intersection" where
  "queryStreets i incoming = (queryStreets_loop incoming (streets i) [], i)"

definition setIsBlocked :: "'v Intersection \<Rightarrow> bool \<Rightarrow> 'v Intersection" where
  "setIsBlocked i b = i\<lparr>isBlocked := b\<rparr>"

text \<open>\<^verbatim>\<open>vehicleHasLeft\<close> does not look at its argument.\<close>

definition vehicleHasLeft :: "'v Intersection \<Rightarrow> 'v \<Rightarrow> 'v Intersection" where
  "vehicleHasLeft i vehicle = setIsBlocked i False"

definition trafficLightIsGreen :: "'v Intersection \<Rightarrow> bool" where
  "trafficLightIsGreen i = (if getCurrentPhase (trafficLight i) = green then True else False)"

text \<open>
  One pass through the body of the loop of \<^verbatim>\<open>processVehicleQueue\<close> (after the sleep),
  on the intersection and the list of fulfilled promises.
\<close>

definition processVehicleQueue ::
  "'v Intersection \<Rightarrow> promise list \<Rightarrow> error + ('v Intersection \<times> promise list)" where
  "processVehicleQueue i fulfilled =
     (if getSize (waitingVehicles i) > 0 \<and> \<not> isBlocked i then
        let i1 = setIsBlocked i True in
        (case permitEntryToFirstInQueue (waitingVehicles i1) fulfilled of
           Inl e \<Rightarrow> Inl e
         | Inr (wv, fulfilled') \<Rightarrow> Inr (i1\<lparr>waitingVehicles := wv\<rparr>, fulfilled'))
      else Inr (i, fulfilled))"

section \<open>The threads around one intersection\<close>

text \<open>
  \<^verbatim>\<open>addVehicleToQueue\<close> blocks three times (on the mutex \<^verbatim>\<open>_mtx\<close>, on the future, in
  \<^verbatim>\<open>receive\<close>), so a call is a small state machine: a program counter and the locals
  that outlive a step. The program counter names the statement the caller is about to
  execute:
  \<^item> \<open>NotCalled\<close>: line 79, \<^verbatim>\<open>std::unique_lock<std::mutex> lck(_mtx)\<close>, the print and
    \<^verbatim>\<open>lck.unlock()\<close>;
  \<^item> \<open>AtPushBack\<close>: lines 84 to 86, the new promise, its future and \<^verbatim>\<open>pushBack\<close>;
  \<^item> \<open>AtFutureWait\<close>: line 89, \<^verbatim>\<open>ftrVehicleAllowedToEnter.wait()\<close>;
  \<^item> \<open>AtRelock\<close>: lines 90 and 91, \<^verbatim>\<open>lck.lock()\<close> and the print;
  \<^item> \<open>AtPhaseCheck\<close>: line 108, \<^verbatim>\<open>_trafficLight.getCurrentPhase() == red\<close>; when the
    phase is not red, line 113 (\<^verbatim>\<open>lck.unlock()\<close>) and the return follow at once;
  \<^item> \<open>InWaitForGreen\<close>: line 110, one pass of the loop of \<^verbatim>\<open>waitForGreen\<close>, that is one
    \<^verbatim>\<open>receive\<close> and the test of what it returned; on green, line 113 and the return;
  \<^item> \<open>HasReturned\<close>: the call has returned.
  The locals: the future \<^verbatim>\<open>ftrVehicleAllowedToEnter\<close> (the handle of its shared state,
  once created) and the phase value the call read last (the result of
  \<^verbatim>\<open>getCurrentPhase()\<close> at line 108, later the local \<^verbatim>\<open>phase\<close> of \<^verbatim>\<open>waitForGreen\<close>).
\<close>

datatype pc =
  NotCalled | AtPushBack | AtFutureWait | AtRelock | AtPhaseCheck | InWaitForGreen | HasReturned

record frame =
  pc :: pc
  ftrVehicleAllowedToEnter :: "promise option"
  observed :: "TrafficLightPhase option"

definition frame_new :: frame where
  "frame_new = \<lparr>pc = NotCalled, ftrVehicleAllowedToEnter = None, observed = None\<rparr>"

text \<open>
  What the threads share: the intersection, the shared states of the promises that hold a
  value (\<open>satisfied\<close>, in the order of the \<^verbatim>\<open>set_value\<close> calls), the handle the next new
  promise gets, whether \<^verbatim>\<open>_mtx\<close> is locked, the locals of the \<^verbatim>\<open>cycleThroughPhases\<close>
  thread, and one frame per caller of \<^verbatim>\<open>addVehicleToQueue\<close>.
\<close>

record 'v World =
  intersection :: "'v Intersection"
  satisfied :: "promise list"
  nextPromise :: promise
  mtx :: bool
  cycle :: cycle_locals
  frames :: "'v \<Rightarrow> frame"

definition World_new :: "int \<Rightarrow> int \<Rightarrow> 'v World" where
  "World_new firstDraw startTime =
     \<lparr>intersection = Intersection_new, satisfied = [], nextPromise = 0, mtx = False,
      cycle = \<lparr>cycleDuration = firstDraw, lastUpdate = startTime\<rparr>,
      frames = (\<lambda>vehicle. frame_new)\<rparr>"

text \<open>
  One step of the call \<^verbatim>\<open>addVehicleToQueue(vehicle)\<close>. A caller that cannot go on (the
  mutex is taken, the promise has no value yet, the queue of phases is empty) leaves the
  world as it is.
\<close>

definition addVehicleToQueue :: "'v \<Rightarrow> 'v World \<Rightarrow> 'v World" where
  "addVehicleToQueue vehicle w =
     (let f = frames w vehicle; i = intersection w in
      case pc f of
        NotCalled \<Rightarrow>
          if mtx w then w
          else w\<lparr>frames := (frames w)(vehicle := f\<lparr>pc := AtPushBack\<rparr>)\<rparr>
      | AtPushBack \<Rightarrow>
          let prmsVehicleAllowedToEnter = nextPromise w in
          w\<lparr>intersection :=
               i\<lparr>waitingVehicles := pushBack (waitingVehicles i) vehicle prmsVehicleAllowedToEnter\<rparr>,
            nextPromise := Suc prmsVehicleAllowedToEnter,
            frames := (frames w)(vehicle :=
               f\<lparr>pc := AtFutureWait, ftrVehicleAllowedToEnter := Some prmsVehicleAllowedToEnter\<rparr>)\<rparr>
      | AtFutureWait \<Rightarrow>
          (case ftrVehicleAllowedToEnter f of
             None \<Rightarrow> w
           | Some p \<Rightarrow>
               if p \<in> set (satisfied w)
               then w\<lparr>frames := (frames w)(vehicle := f\<lparr>pc := AtRelock\<rparr>)\<rparr>
               else w)
      | AtRelock \<Rightarrow>
          if mtx w then w
          else w\<lparr>mtx := True, frames := (frames w)(vehicle := f\<lparr>pc := AtPhaseCheck\<rparr>)\<rparr>
      | AtPhaseCheck \<Rightarrow>
          let current = getCurrentPhase (trafficLight i) in
          if current = red
          then w\<lparr>frames := (frames w)(vehicle := f\<lparr>pc := InWaitForGreen, observed := Some current\<rparr>)\<rparr>
          else w\<lparr>mtx := False,
                 frames := (frames w)(vehicle := f\<lparr>pc := HasReturned, observed := Some current\<rparr>)\<rparr>
      | InWaitForGreen \<Rightarrow>
          (case receive (messageQueue (trafficLight i)) of
             None \<Rightarrow> w
           | Some (received, rest) \<Rightarrow>
               let w1 = w\<lparr>intersection := i\<lparr>trafficLight := (trafficLight i)\<lparr>messageQueue := rest\<rparr>\<rparr>\<rparr> in
               if received = green
               then w1\<lparr>mtx := False,
                       frames := (frames w)(vehicle := f\<lparr>pc := HasReturned, observed := Some received\<rparr>)\<rparr>
               else w1\<lparr>frames := (frames w)(vehicle := f\<lparr>observed := Some received\<rparr>)\<rparr>)
      | HasReturned \<Rightarrow> w)"

text \<open>
  The steps of the system: a step of a caller of \<^verbatim>\<open>addVehicleToQueue\<close>, a pass of the
  loop of \<^verbatim>\<open>processVehicleQueue\<close>, a call of \<^verbatim>\<open>vehicleHasLeft\<close>, a pass of the loop of
  \<^verbatim>\<open>cycleThroughPhases\<close>. Each is taken as a whole; a run is a list of steps, and stops
  at the first error.
\<close>

datatype 'v event =
  AddVehicleToQueue 'v | ProcessVehicleQueue | VehicleHasLeft 'v | CycleThroughPhases tick

fun step :: "'v event \<Rightarrow> 'v World \<Rightarrow> error + 'v World" where
  "step (AddVehicleToQueue vehicle) w = Inr (addVehicleToQueue vehicle w)"
| "step ProcessVehicleQueue w =
     (case processVehicleQueue (intersection w) (satisfied w) of
        Inl e \<Rightarrow> Inl e
      | Inr (i, s) \<Rightarrow> Inr (w\<lparr>intersection := i, satisfied := s\<rparr>))"
| "step (VehicleHasLeft vehicle) w =
     Inr (w\<lparr>intersection := vehicleHasLeft (intersection w) vehicle\<rparr>)"
| "step (CycleThroughPhases t) w =
     (case cycle_iteration t (trafficLight (intersection w), cycle w) of
        (light, loc) \<Rightarrow>
          Inr (w\<lparr>intersection := (intersection w)\<lparr>trafficLight := light\<rparr>, cycle := loc\<rparr>))"

fun run :: "'v event list \<Rightarrow> 'v World \<Rightarrow> error + 'v World" where
  "run [] w = Inr w"
| "run (e # es) w = (case step e w of Inl err \<Rightarrow> Inl err | Inr w' \<Rightarrow> run es w')"

section \<open>Invariants\<close>

text \<open>What holds of the light between two passes of the loop.\<close>

definition alternating_light :: "TrafficLight \<Rightarrow> bool" where
  "alternating_light light \<longleftrightarrow>
     messageQueue light = alternation green (length (messageQueue light))
     \<and> currentPhase light = (if even (length (messageQueue light)) then red else green)"

text \<open>
  The two vectors of the waiting queue run in parallel, and promises are fulfilled in the
  order in which they were created and enqueued: the fulfilled ones followed by the
  waiting ones are all the promises made so far, in order.
\<close>

definition queue_inv :: "'v World \<Rightarrow> bool" where
  "queue_inv w \<longleftrightarrow>
     length (vehicles (waitingVehicles (intersection w)))
       = length (promises (waitingVehicles (intersection w)))
     \<and> satisfied w @ promises (waitingVehicles (intersection w)) = [0..<nextPromise w]"



section \<open>Properties of the message queue\<close>

lemma receive_Nil: "receive [] = None"
  by (simp add: receive_def)

lemma receive_Cons: "receive (msg # rest) = Some (msg, rest)"
  by (simp add: receive_def)

lemma channel_step_conserves:
  "channel_step op (queue, got) = (queue', got') \<Longrightarrow>
   got' @ queue' = got @ queue @ sent_by [op]"
  by (cases op; cases queue) (auto simp: send_def receive_def)

lemma channel_run_conserves:
  "channel_run ops (queue, got) = (queue', got') \<Longrightarrow>
   got' @ queue' = got @ queue @ sent_by ops"
proof (induction ops arbitrary: queue got)
  case Nil
  then show ?case by simp
next
  case (Cons op ops)
  obtain q1 g1 where step: "channel_step op (queue, got) = (q1, g1)"
    by (cases "channel_step op (queue, got)")
  from Cons.prems step have "channel_run ops (q1, g1) = (queue', got')"
    by simp
  then have "got' @ queue' = g1 @ q1 @ sent_by ops"
    by (rule Cons.IH)
  moreover from step have "g1 @ q1 = got @ queue @ sent_by [op]"
    by (rule channel_step_conserves)
  moreover have "sent_by (op # ops) = sent_by [op] @ sent_by ops"
    by (cases op) simp_all
  ultimately show ?case by simp
qed

lemma channel_run_append:
  "channel_run (ops @ ops') st = channel_run ops' (channel_run ops st)"
  by (induction ops arbitrary: st) simp_all

lemma channel_run_sends:
  "channel_run (map Send msgs) (queue, got) = (queue @ msgs, got)"
  by (induction msgs arbitrary: queue) (simp_all add: send_def)

lemma channel_run_receives:
  "channel_run (replicate (length msgs) Receive) (msgs @ queue, got) = (queue, got @ msgs)"
  by (induction msgs arbitrary: got) (simp_all add: receive_def)

text \<open>
  C6. \<^verbatim>\<open>send\<close> is total and appends the message at the back; \<^verbatim>\<open>receive\<close> on a non-empty
  queue removes and returns the front value; so in every schedule of sends and receives
  the values received followed by the values still queued are exactly the values sent, in
  the order sent (each value is received once, none is lost or invented), and a producer
  that sends \<open>msgs\<close> followed by as many receives hands over \<open>msgs\<close> itself.
\<close>

theorem messageQueue_fifo:
  "send queue msg = queue @ [msg]
   \<and> (queue \<noteq> [] \<longrightarrow> receive queue = Some (hd queue, tl queue))
   \<and> (channel_run ops ([], []) = (queue', got') \<longrightarrow> got' @ queue' = sent_by ops)
   \<and> channel_run (map Send msgs @ replicate (length msgs) Receive) ([], []) = ([], msgs)"
proof (intro conjI impI)
  show "send queue msg = queue @ [msg]"
    by (simp add: send_def)
  show "receive queue = Some (hd queue, tl queue)" if "queue \<noteq> []"
    using that by (cases queue) (simp_all add: receive_def)
  show "got' @ queue' = sent_by ops" if "channel_run ops ([], []) = (queue', got')"
    using channel_run_conserves [OF that] by simp
  show "channel_run (map Send msgs @ replicate (length msgs) Receive) ([], []) = ([], msgs)"
    using channel_run_receives [of msgs "[]" "[]"]
    by (simp add: channel_run_append channel_run_sends)
qed

theorem messageQueue_fifo_witness:
  "send [red] green = [red, green]
   \<and> receive [red, green] = Some (red, [green])
   \<and> channel_run [Send red, Receive, Send green, Send red, Receive] ([], [])
       = ([red], [red, green])
   \<and> [red, green] @ [red] = sent_by [Send red, Receive, Send green, Send red, Receive]
   \<and> channel_run (map Send [red, green] @ replicate (length [red, green]) Receive) ([], [])
       = ([], [red, green])"
proof -
  have run: "channel_run [Send red, Receive, Send green, Send red, Receive] ([], [])
      = ([red], [red, green])"
    by (simp add: send_def receive_def)
  show ?thesis
    using messageQueue_fifo [of "[red, green]" green
        "[Send red, Receive, Send green, Send red, Receive]" "[red]" "[red, green]"
        "[red, green]"] run
    by (simp add: send_def receive_def)
qed

section \<open>Properties of waitForGreen\<close>

lemma waitForGreen_empty:
  "waitForGreen (light\<lparr>messageQueue := []\<rparr>) = Blocked (light\<lparr>messageQueue := []\<rparr>)"
  by (subst waitForGreen.simps) (simp add: receive_def)

lemma waitForGreen_green:
  "waitForGreen (light\<lparr>messageQueue := green # rest\<rparr>) = Returned (light\<lparr>messageQueue := rest\<rparr>)"
  by (subst waitForGreen.simps) (simp add: receive_def)

lemma waitForGreen_red:
  "waitForGreen (light\<lparr>messageQueue := red # rest\<rparr>) = waitForGreen (light\<lparr>messageQueue := rest\<rparr>)"
  by (subst waitForGreen.simps) (simp add: receive_def)

lemma waitForGreen_skips_reds:
  "green \<notin> set reds \<Longrightarrow>
   waitForGreen (light\<lparr>messageQueue := reds @ later\<rparr>) = waitForGreen (light\<lparr>messageQueue := later\<rparr>)"
proof (induction reds)
  case Nil
  then show ?case by simp
next
  case (Cons p reds)
  then have "p = red" by (cases p) simp_all
  with Cons show ?case by (simp add: waitForGreen_red)
qed

lemma waitForGreen_eq:
  "waitForGreen light =
     (if green \<in> set (messageQueue light)
      then Returned (light\<lparr>messageQueue := tl (dropWhile (\<lambda>p. p \<noteq> green) (messageQueue light))\<rparr>)
      else Blocked (light\<lparr>messageQueue := []\<rparr>))"
proof (cases "green \<in> set (messageQueue light)")
  case True
  then obtain reds rest where q: "messageQueue light = reds @ green # rest" "green \<notin> set reds"
    by (meson split_list_first)
  have "light = light\<lparr>messageQueue := reds @ green # rest\<rparr>" using q by simp
  then have "waitForGreen light = waitForGreen (light\<lparr>messageQueue := green # rest\<rparr>)"
    using waitForGreen_skips_reds [OF q(2), where light = light and later = "green # rest"] by simp
  then have "waitForGreen light = Returned (light\<lparr>messageQueue := rest\<rparr>)"
    by (simp add: waitForGreen_green)
  moreover have "dropWhile (\<lambda>p. p \<noteq> green) (messageQueue light) = green # rest"
    using q by (auto simp: dropWhile_append3)
  ultimately show ?thesis
    using True by simp
next
  case False
  have "light = light\<lparr>messageQueue := messageQueue light @ []\<rparr>" by simp
  then have "waitForGreen light = waitForGreen (light\<lparr>messageQueue := []\<rparr>)"
    using waitForGreen_skips_reds [OF False, where light = light and later = "[]"] by simp
  then show ?thesis using False by (simp add: waitForGreen_empty)
qed

text \<open>
  C5. Whatever the channel delivers, \<^verbatim>\<open>waitForGreen\<close> receives and discards the red
  values in front and returns at the first green value, leaving what comes after it in the
  queue; on red values alone it consumes them all and does not return (it is blocked in
  \<^verbatim>\<open>receive\<close>, and goes on with whatever is delivered later); and whenever it returns,
  what it consumed is a run of red values followed by one green value.
\<close>
theorem waitForGreen_first_green:
  "(green \<notin> set reds \<longrightarrow>
      waitForGreen (light\<lparr>messageQueue := reds @ green # rest\<rparr>)
        = Returned (light\<lparr>messageQueue := rest\<rparr>))
   \<and> (green \<notin> set reds \<longrightarrow>
      waitForGreen (light\<lparr>messageQueue := reds\<rparr>) = Blocked (light\<lparr>messageQueue := []\<rparr>))
   \<and> (green \<notin> set reds \<longrightarrow>
      waitForGreen (light\<lparr>messageQueue := reds @ later\<rparr>)
        = waitForGreen (light\<lparr>messageQueue := later\<rparr>))
   \<and> (waitForGreen light = Returned light' \<longrightarrow>
      (\<exists>reds. green \<notin> set reds \<and> messageQueue light = reds @ green # messageQueue light'
         \<and> light' = light\<lparr>messageQueue := messageQueue light'\<rparr>))"
proof (intro conjI impI)
  show "waitForGreen (light\<lparr>messageQueue := reds @ green # rest\<rparr>)
        = Returned (light\<lparr>messageQueue := rest\<rparr>)" if "green \<notin> set reds"
    using waitForGreen_skips_reds [OF that, where light = light and later = "green # rest"]
    by (simp add: waitForGreen_green)
  show "waitForGreen (light\<lparr>messageQueue := reds\<rparr>) = Blocked (light\<lparr>messageQueue := []\<rparr>)"
    if "green \<notin> set reds"
    using waitForGreen_skips_reds [OF that, where light = light and later = "[]"]
    by (simp add: waitForGreen_empty)
  show "waitForGreen (light\<lparr>messageQueue := reds @ later\<rparr>)
        = waitForGreen (light\<lparr>messageQueue := later\<rparr>)" if "green \<notin> set reds"
    using that by (rule waitForGreen_skips_reds)
  show "\<exists>reds. green \<notin> set reds \<and> messageQueue light = reds @ green # messageQueue light'
         \<and> light' = light\<lparr>messageQueue := messageQueue light'\<rparr>"
    if ret: "waitForGreen light = Returned light'"
  proof -
    from ret have g: "green \<in> set (messageQueue light)"
      and l': "light' = light\<lparr>messageQueue := tl (dropWhile (\<lambda>p. p \<noteq> green) (messageQueue light))\<rparr>"
      by (simp_all add: waitForGreen_eq split: if_splits)
    from g obtain reds rest where q: "messageQueue light = reds @ green # rest" "green \<notin> set reds"
      by (meson split_list_first)
    then have "dropWhile (\<lambda>p. p \<noteq> green) (messageQueue light) = green # rest"
      by (auto simp: dropWhile_append3)
    with l' have "messageQueue light' = rest" by simp
    with q l' show ?thesis by auto
  qed
qed

theorem waitForGreen_first_green_witness:
  "waitForGreen \<lparr>currentPhase = red, messageQueue = [red, red, green, red]\<rparr>
     = Returned \<lparr>currentPhase = red, messageQueue = [red]\<rparr>
   \<and> waitForGreen \<lparr>currentPhase = red, messageQueue = [red, red]\<rparr>
     = Blocked \<lparr>currentPhase = red, messageQueue = []\<rparr>"
  using waitForGreen_first_green [where reds = "[red, red]" and rest = "[red]"
      and light = "\<lparr>currentPhase = red, messageQueue = []\<rparr>" and later = "[]"
      and light' = "\<lparr>currentPhase = red, messageQueue = []\<rparr>"]
  by (simp add: waitForGreen_eq)

section \<open>Properties of the waiting queue\<close>

lemma permitEntry_front:
  "vehicles wv = v # vs \<Longrightarrow> promises wv = p # ps \<Longrightarrow> p \<notin> set fulfilled \<Longrightarrow>
   permitEntryToFirstInQueue wv fulfilled
     = Inr (wv\<lparr>vehicles := vs, promises := ps\<rparr>, fulfilled @ [p])"
  by (simp add: permitEntryToFirstInQueue_def set_value_def)

lemma permitEntry_empty:
  "promises wv = [] \<Longrightarrow> permitEntryToFirstInQueue wv fulfilled = Inl EmptyVector"
  by (simp add: permitEntryToFirstInQueue_def)

lemma permitEntry_Inr:
  "permitEntryToFirstInQueue wv fulfilled = Inr (wv', fulfilled') \<Longrightarrow>
   \<exists>v vs p ps. vehicles wv = v # vs \<and> promises wv = p # ps \<and> p \<notin> set fulfilled
      \<and> wv' = wv\<lparr>vehicles := vs, promises := ps\<rparr> \<and> fulfilled' = fulfilled @ [p]"
  by (auto simp: permitEntryToFirstInQueue_def set_value_def
      split: list.splits sum.splits if_splits)

lemma queue_run_append:
  "queue_run (ops @ ops') st =
     (case queue_run ops st of Inl e \<Rightarrow> Inl e | Inr st' \<Rightarrow> queue_run ops' st')"
  by (induction ops arbitrary: st) (simp_all split: sum.splits)

lemma queue_run_pushes:
  "queue_run (map (\<lambda>(v, p). PushBack v p) es) (wv, fulfilled)
     = Inr (wv\<lparr>vehicles := vehicles wv @ map fst es, promises := promises wv @ map snd es\<rparr>,
            fulfilled)"
  by (induction es arbitrary: wv) (auto simp: pushBack_def)

lemma queue_run_grants:
  "length vs = length ps \<Longrightarrow> distinct ps \<Longrightarrow> set ps \<inter> set fulfilled = {} \<Longrightarrow>
   k \<le> length ps \<Longrightarrow>
   queue_run (replicate k PermitEntry) (\<lparr>vehicles = vs, promises = ps\<rparr>, fulfilled)
     = Inr (\<lparr>vehicles = drop k vs, promises = drop k ps\<rparr>, fulfilled @ take k ps)"
proof (induction k arbitrary: vs ps fulfilled)
  case 0
  then show ?case by simp
next
  case (Suc k)
  from Suc.prems obtain v vs' p ps' where vs: "vs = v # vs'" and ps: "ps = p # ps'"
    by (cases vs; cases ps) auto
  from Suc.prems ps have fresh: "p \<notin> set fulfilled" by auto
  have step: "permitEntryToFirstInQueue \<lparr>vehicles = vs, promises = ps\<rparr> fulfilled
      = Inr (\<lparr>vehicles = vs', promises = ps'\<rparr>, fulfilled @ [p])"
    using permitEntry_front [of "\<lparr>vehicles = vs, promises = ps\<rparr>" v vs' p ps' fulfilled]
      vs ps fresh by simp
  have "queue_run (replicate k PermitEntry) (\<lparr>vehicles = vs', promises = ps'\<rparr>, fulfilled @ [p])
      = Inr (\<lparr>vehicles = drop k vs', promises = drop k ps'\<rparr>, (fulfilled @ [p]) @ take k ps')"
    using Suc.prems vs ps by (intro Suc.IH) auto
  with step show ?case by (simp add: vs ps)
qed

lemma queue_run_invariant:
  "queue_run ops (wv, fulfilled) = Inr (wv', fulfilled') \<Longrightarrow>
   length (vehicles wv) = length (promises wv) \<Longrightarrow>
   length (vehicles wv') = length (promises wv')
   \<and> zip (vehicles wv') (promises wv')
       = drop (grants ops) (zip (vehicles wv) (promises wv) @ pushed ops)"
proof (induction ops arbitrary: wv fulfilled)
  case Nil
  then show ?case by simp
next
  case (Cons op ops)
  show ?case
  proof (cases op)
    case (PushBack v p)
    with Cons.prems have run: "queue_run ops (pushBack wv v p, fulfilled) = Inr (wv', fulfilled')"
      by simp
    have len: "length (vehicles (pushBack wv v p)) = length (promises (pushBack wv v p))"
      using Cons.prems(2) by (simp add: pushBack_def)
    from Cons.IH [OF run len] Cons.prems(2) PushBack show ?thesis
      by (simp add: pushBack_def)
  next
    case PermitEntry
    with Cons.prems obtain wv1 f1 where
      step: "permitEntryToFirstInQueue wv fulfilled = Inr (wv1, f1)"
      and run: "queue_run ops (wv1, f1) = Inr (wv', fulfilled')"
      by (auto split: sum.splits)
    from permitEntry_Inr [OF step] obtain v vs p ps where
      front: "vehicles wv = v # vs" "promises wv = p # ps"
      and wv1: "wv1 = wv\<lparr>vehicles := vs, promises := ps\<rparr>"
      by blast
    have len: "length (vehicles wv1) = length (promises wv1)"
      using Cons.prems(2) front wv1 by simp
    from Cons.IH [OF run len] front wv1 PermitEntry show ?thesis
      by simp
  qed
qed

lemma queue_run_grant_order:
  "queue_run ops (wv, fulfilled) = Inr (wv', fulfilled') \<Longrightarrow>
   fulfilled' = fulfilled @ take (grants ops) (promises wv @ map snd (pushed ops))"
proof (induction ops arbitrary: wv fulfilled)
  case Nil
  then show ?case by simp
next
  case (Cons op ops)
  show ?case
  proof (cases op)
    case (PushBack v p)
    with Cons.prems have run: "queue_run ops (pushBack wv v p, fulfilled) = Inr (wv', fulfilled')"
      by simp
    from Cons.IH [OF run] PushBack show ?thesis
      by (simp add: pushBack_def)
  next
    case PermitEntry
    with Cons.prems obtain wv1 f1 where
      step: "permitEntryToFirstInQueue wv fulfilled = Inr (wv1, f1)"
      and run: "queue_run ops (wv1, f1) = Inr (wv', fulfilled')"
      by (auto split: sum.splits)
    from permitEntry_Inr [OF step] obtain v vs p ps where
      front: "promises wv = p # ps"
      and wv1: "wv1 = wv\<lparr>vehicles := vs, promises := ps\<rparr>" and f1: "f1 = fulfilled @ [p]"
      by blast
    from Cons.IH [OF run] front wv1 f1 PermitEntry show ?thesis
      by simp
  qed
qed

text \<open>
  C1. On a queue whose front entry is vehicle \<open>v\<close> with ticket \<open>p\<close>, not yet fulfilled,
  \<^verbatim>\<open>permitEntryToFirstInQueue\<close> removes exactly that entry from both vectors and sets the
  value of \<open>p\<close>, which is then fulfilled exactly once; the function itself does not test
  for emptiness (on an empty queue it dereferences \<^verbatim>\<open>begin()\<close>). So after agents are
  enqueued in the order \<open>es\<close> with fresh, distinct tickets, \<open>k\<close> grants succeed, fulfil the
  tickets of the first \<open>k\<close> agents in the order enqueued, and leave the others waiting in
  order; and however enqueues and grants are interleaved, the tickets fulfilled are those
  of the agents enqueued first, in the order enqueued.
\<close>

theorem permitEntryToFirstInQueue_fifo:
  "(vehicles wv = v # vs \<and> promises wv = p # ps \<and> p \<notin> set fulfilled \<longrightarrow>
      permitEntryToFirstInQueue wv fulfilled
        = Inr (wv\<lparr>vehicles := vs, promises := ps\<rparr>, fulfilled @ [p])
      \<and> count_list (fulfilled @ [p]) p = 1)
   \<and> (promises wv = [] \<longrightarrow> permitEntryToFirstInQueue wv fulfilled = Inl EmptyVector)
   \<and> (distinct (map snd es) \<and> set (map snd es) \<inter> set fulfilled = {} \<and> k \<le> length es \<longrightarrow>
      queue_run (map (\<lambda>(a, t). PushBack a t) es @ replicate k PermitEntry)
          (WaitingVehicles_new, fulfilled)
        = Inr (\<lparr>vehicles = drop k (map fst es), promises = drop k (map snd es)\<rparr>,
               fulfilled @ take k (map snd es)))
   \<and> (queue_run ops (WaitingVehicles_new, fulfilled) = Inr (wv', fulfilled') \<longrightarrow>
      fulfilled' = fulfilled @ take (grants ops) (map snd (pushed ops)))"
proof (intro conjI impI)
  assume front: "vehicles wv = v # vs \<and> promises wv = p # ps \<and> p \<notin> set fulfilled"
  then show "permitEntryToFirstInQueue wv fulfilled
      = Inr (wv\<lparr>vehicles := vs, promises := ps\<rparr>, fulfilled @ [p])"
    by (simp add: permitEntry_front)
  from front have "count_list fulfilled p = 0"
    by (simp add: count_list_0_iff)
  then show "count_list (fulfilled @ [p]) p = 1"
    by simp
next
  assume "promises wv = []"
  then show "permitEntryToFirstInQueue wv fulfilled = Inl EmptyVector"
    by (rule permitEntry_empty)
next
  assume es: "distinct (map snd es) \<and> set (map snd es) \<inter> set fulfilled = {} \<and> k \<le> length es"
  have "queue_run (map (\<lambda>(a, t). PushBack a t) es) (WaitingVehicles_new, fulfilled)
      = Inr (\<lparr>vehicles = map fst es, promises = map snd es\<rparr>, fulfilled)"
    by (simp add: queue_run_pushes WaitingVehicles_new_def)
  moreover have "queue_run (replicate k PermitEntry)
        (\<lparr>vehicles = map fst es, promises = map snd es\<rparr>, fulfilled)
      = Inr (\<lparr>vehicles = drop k (map fst es), promises = drop k (map snd es)\<rparr>,
             fulfilled @ take k (map snd es))"
    using es by (intro queue_run_grants) simp_all
  ultimately show "queue_run (map (\<lambda>(a, t). PushBack a t) es @ replicate k PermitEntry)
        (WaitingVehicles_new, fulfilled)
      = Inr (\<lparr>vehicles = drop k (map fst es), promises = drop k (map snd es)\<rparr>,
             fulfilled @ take k (map snd es))"
    by (simp add: queue_run_append)
next
  assume "queue_run ops (WaitingVehicles_new, fulfilled) = Inr (wv', fulfilled')"
  from queue_run_grant_order [OF this]
  show "fulfilled' = fulfilled @ take (grants ops) (map snd (pushed ops))"
    by (simp add: WaitingVehicles_new_def)
qed

theorem permitEntryToFirstInQueue_fifo_witness:
  "permitEntryToFirstInQueue \<lparr>vehicles = [7, 8 :: nat], promises = [0, 1]\<rparr> []
     = Inr (\<lparr>vehicles = [8], promises = [1]\<rparr>, [0])
   \<and> permitEntryToFirstInQueue \<lparr>vehicles = [] :: nat list, promises = []\<rparr> [] = Inl EmptyVector
   \<and> queue_run [PushBack (7 :: nat) 0, PushBack 8 1, PushBack 9 2, PermitEntry, PermitEntry]
        (WaitingVehicles_new, [])
     = Inr (\<lparr>vehicles = [9], promises = [2]\<rparr>, [0, 1])"
proof -
  have two: "replicate 2 PermitEntry = [PermitEntry, PermitEntry :: nat queue_op]"
    by (simp add: numeral_2_eq_2)
  have "permitEntryToFirstInQueue \<lparr>vehicles = [] :: nat list, promises = []\<rparr> [] = Inl EmptyVector"
    by (simp add: permitEntryToFirstInQueue_def)
  then show ?thesis
    using permitEntryToFirstInQueue_fifo
      [where wv = "\<lparr>vehicles = [7, 8 :: nat], promises = [0, 1]\<rparr>" and v = 7 and vs = "[8]"
        and p = 0 and ps = "[1]" and fulfilled = "[]"
        and es = "[(7 :: nat, 0), (8, 1), (9, 2)]" and k = 2
        and ops = "[PushBack 7 0, PermitEntry, PushBack 8 1]"
        and wv' = "\<lparr>vehicles = [8], promises = [1]\<rparr>" and fulfilled' = "[0]"] two
    by (simp add: WaitingVehicles_new_def pushBack_def permitEntryToFirstInQueue_def set_value_def)
qed

text \<open>
  C9. After any sequence of \<^verbatim>\<open>pushBack\<close> and \<^verbatim>\<open>permitEntryToFirstInQueue\<close> calls on a
  new \<^verbatim>\<open>WaitingVehicles\<close> that runs without error (each grant found an entry), the two
  vectors have the same length, \<^verbatim>\<open>getSize\<close> returns it, and the vehicle and the promise
  at the same index were pushed by the same call: paired index by index, the vectors are
  the pushed entries without the first ones, one dropped per grant.
\<close>

theorem waitingVehicles_vectors_parallel:
  "queue_run ops (WaitingVehicles_new, fulfilled) = Inr (wv, fulfilled') \<longrightarrow>
     length (vehicles wv) = length (promises wv)
     \<and> getSize wv = int (length (promises wv))
     \<and> zip (vehicles wv) (promises wv) = drop (grants ops) (pushed ops)"
proof
  assume run: "queue_run ops (WaitingVehicles_new, fulfilled) = Inr (wv, fulfilled')"
  have "length (vehicles (WaitingVehicles_new :: 'a WaitingVehicles))
      = length (promises (WaitingVehicles_new :: 'a WaitingVehicles))"
    by (simp add: WaitingVehicles_new_def)
  from queue_run_invariant [OF run this]
  show "length (vehicles wv) = length (promises wv)
     \<and> getSize wv = int (length (promises wv))
     \<and> zip (vehicles wv) (promises wv) = drop (grants ops) (pushed ops)"
    by (simp add: getSize_def WaitingVehicles_new_def)
qed

theorem waitingVehicles_vectors_parallel_witness:
  "queue_run [PushBack (7 :: nat) 0, PushBack 8 1, PermitEntry, PushBack 9 2] (WaitingVehicles_new, [])
     = Inr (\<lparr>vehicles = [8, 9], promises = [1, 2]\<rparr>, [0])
   \<and> getSize \<lparr>vehicles = [8, 9 :: nat], promises = [1, 2]\<rparr> = 2
   \<and> zip [8, 9 :: nat] [1, 2 :: nat]
     = drop (grants [PushBack (7 :: nat) 0, PushBack 8 1, PermitEntry, PushBack 9 2])
         (pushed [PushBack (7 :: nat) 0, PushBack 8 1, PermitEntry, PushBack 9 2])"
proof -
  have run: "queue_run [PushBack (7 :: nat) 0, PushBack 8 1, PermitEntry, PushBack 9 2]
        (WaitingVehicles_new, [])
      = Inr (\<lparr>vehicles = [8, 9], promises = [1, 2]\<rparr>, [0])"
    by (simp add: WaitingVehicles_new_def pushBack_def permitEntryToFirstInQueue_def set_value_def)
  show ?thesis
    using waitingVehicles_vectors_parallel
      [where ops = "[PushBack (7 :: nat) 0, PushBack 8 1, PermitEntry, PushBack 9 2]"
        and fulfilled = "[]" and wv = "\<lparr>vehicles = [8, 9], promises = [1, 2]\<rparr>"
        and fulfilled' = "[0]"] run
    by simp
qed

section \<open>Properties of queryStreets\<close>

lemma queryStreets_loop_filter:
  "queryStreets_loop incoming its outgoings
     = outgoings @ filter (\<lambda>it. getID it \<noteq> getID incoming) its"
  by (induction its arbitrary: outgoings) auto

lemma addStreet_foldl: "streets (foldl addStreet i ss) = streets i @ ss"
  by (induction ss arbitrary: i) (simp_all add: addStreet_def)

text \<open>
  C10. \<^verbatim>\<open>queryStreets\<close> returns the connected streets whose ID differs from the ID of
  the incoming street, in the order of the \<^verbatim>\<open>addStreet\<close> calls, and leaves the
  intersection as it was; if no connected street has the ID of the incoming one (a street
  is what its ID says, so: if the incoming street is not connected), all of them are
  returned.
\<close>

theorem queryStreets_others:
  "queryStreets i incoming = (filter (\<lambda>it. getID it \<noteq> getID incoming) (streets i), i)
   \<and> (getID incoming \<notin> getID ` set (streets i) \<longrightarrow> fst (queryStreets i incoming) = streets i)
   \<and> (incoming \<notin> set (streets i) \<longrightarrow> fst (queryStreets i incoming) = streets i)
   \<and> streets (foldl addStreet Intersection_new ss) = ss"
proof (intro conjI impI)
  show eq: "queryStreets i incoming = (filter (\<lambda>it. getID it \<noteq> getID incoming) (streets i), i)"
    by (simp add: queryStreets_def queryStreets_loop_filter)
  show "fst (queryStreets i incoming) = streets i"
    if "getID incoming \<notin> getID ` set (streets i)"
  proof -
    from that have "\<forall>it \<in> set (streets i). getID it \<noteq> getID incoming"
      by (metis imageI)
    then show ?thesis by (simp add: eq)
  qed
  show "fst (queryStreets i incoming) = streets i" if "incoming \<notin> set (streets i)"
  proof -
    have "it = incoming" if "getID it = getID incoming" for it
      using that by (simp add: getID_def)
    with \<open>incoming \<notin> set (streets i)\<close>
    have "\<forall>it \<in> set (streets i). getID it \<noteq> getID incoming"
      by blast
    then show ?thesis by (simp add: eq)
  qed
  show "streets (foldl addStreet Intersection_new ss) = ss"
    by (simp add: addStreet_foldl Intersection_new_def)
qed

theorem queryStreets_others_witness:
  "fst (queryStreets (foldl addStreet (Intersection_new :: nat Intersection)
          [\<lparr>street_id = 1\<rparr>, \<lparr>street_id = 2\<rparr>, \<lparr>street_id = 3\<rparr>]) \<lparr>street_id = 2\<rparr>)
     = [\<lparr>street_id = 1\<rparr>, \<lparr>street_id = 3\<rparr>]
   \<and> fst (queryStreets (foldl addStreet (Intersection_new :: nat Intersection)
          [\<lparr>street_id = 1\<rparr>, \<lparr>street_id = 2\<rparr>, \<lparr>street_id = 3\<rparr>]) \<lparr>street_id = 5\<rparr>)
     = [\<lparr>street_id = 1\<rparr>, \<lparr>street_id = 2\<rparr>, \<lparr>street_id = 3\<rparr>]"
  using queryStreets_others
    [where i = "foldl addStreet (Intersection_new :: nat Intersection)
          [\<lparr>street_id = 1\<rparr>, \<lparr>street_id = 2\<rparr>, \<lparr>street_id = 3\<rparr>]"
      and incoming = "\<lparr>street_id = 5\<rparr>"
      and ss = "[\<lparr>street_id = 1\<rparr>, \<lparr>street_id = 2\<rparr>, \<lparr>street_id = 3\<rparr>]"]
  by (simp add: queryStreets_def addStreet_def Intersection_new_def getID_def)

section \<open>Properties of cycleThroughPhases\<close>

lemma toggle_toggle: "toggle (toggle phase) = phase"
  by (cases phase) (simp_all add: toggle_def)

lemma toggle_neq: "toggle phase \<noteq> phase"
  by (cases phase) (simp_all add: toggle_def)

lemma cycle_iteration_due:
  "cycleDuration loc \<le> now_check t - lastUpdate loc \<Longrightarrow>
   cycle_iteration t (light, loc)
     = (light\<lparr>currentPhase := toggle (currentPhase light),
              messageQueue := messageQueue light @ [toggle (currentPhase light)]\<rparr>,
        \<lparr>cycleDuration = draw t, lastUpdate = now_reset t\<rparr>)"
  by (simp add: cycle_iteration_def send_def Let_def)

lemma cycle_iteration_early:
  "\<not> cycleDuration loc \<le> now_check t - lastUpdate loc \<Longrightarrow>
   cycle_iteration t (light, loc) = (light, loc)"
  by (simp add: cycle_iteration_def)

lemma alternation_length: "length (alternation phase n) = n"
  by (induction n arbitrary: phase) simp_all

lemma alternation_snoc:
  "alternation phase (Suc n) = alternation phase n @ [if even n then phase else toggle phase]"
proof (induction n arbitrary: phase)
  case 0
  show ?case by simp
next
  case (Suc n)
  have "alternation phase (Suc (Suc n)) = phase # alternation (toggle phase) (Suc n)"
    by simp
  also have "\<dots> = phase # (alternation (toggle phase) n
      @ [if even n then toggle phase else toggle (toggle phase)])"
    by (simp only: Suc.IH)
  also have "\<dots> = alternation phase (Suc n) @ [if even (Suc n) then phase else toggle phase]"
    by (simp add: toggle_toggle)
  finally show ?case .
qed

lemma alternation_nth:
  "k < n \<Longrightarrow> alternation phase n ! k = (if even k then phase else toggle phase)"
proof (induction n arbitrary: phase k)
  case 0
  then show ?case by simp
next
  case (Suc n)
  show ?case
  proof (cases k)
    case 0
    then show ?thesis by simp
  next
    case (Suc j)
    with Suc.prems have "j < n" by simp
    from Suc.IH [OF this, of "toggle phase"] Suc show ?thesis
      by (simp add: toggle_toggle)
  qed
qed

lemma alternating_light_iteration:
  assumes "alternating_light (fst st)"
  shows "alternating_light (fst (cycle_iteration t st))"
proof (cases st)
  case (Pair light loc)
  show ?thesis
  proof (cases "cycleDuration loc \<le> now_check t - lastUpdate loc")
    case True
    let ?n = "length (messageQueue light)"
    from assms Pair have q: "messageQueue light = alternation green ?n"
      and p: "currentPhase light = (if even ?n then red else green)"
      by (simp_all add: alternating_light_def)
    have sent: "toggle (currentPhase light) = (if even ?n then green else toggle green)"
      using p by (simp add: toggle_def)
    have "alternation green (Suc ?n) = alternation green ?n @ [toggle (currentPhase light)]"
      by (simp only: alternation_snoc sent)
    also have "alternation green ?n = messageQueue light"
      by (rule q [symmetric])
    finally have new_q:
      "messageQueue light @ [toggle (currentPhase light)] = alternation green (Suc ?n)"
      by (rule sym)
    have new_p: "toggle (currentPhase light) = (if even (Suc ?n) then red else green)"
      using p by (simp add: toggle_def)
    from True Pair have "fst (cycle_iteration t st)
        = light\<lparr>currentPhase := toggle (currentPhase light),
                 messageQueue := messageQueue light @ [toggle (currentPhase light)]\<rparr>"
      by (simp add: cycle_iteration_due)
    then show ?thesis
      using new_q new_p
      by (simp add: alternating_light_def alternation_length del: alternation.simps)
  next
    case False
    with assms Pair show ?thesis by (simp add: cycle_iteration_early)
  qed
qed

lemma alternating_light_foldl:
  "alternating_light (fst st) \<Longrightarrow>
   alternating_light (fst (foldl (\<lambda>st t. cycle_iteration t st) st ticks))"
  by (induction ticks arbitrary: st) (simp_all add: alternating_light_iteration)

lemma alternating_light_run:
  "alternating_light (fst (cycleThroughPhases firstDraw startTime ticks TrafficLight_new))"
  unfolding cycleThroughPhases_def
  by (rule alternating_light_foldl) (simp add: alternating_light_def TrafficLight_new_def)

text \<open>
  C7. In a pass of the loop of \<^verbatim>\<open>cycleThroughPhases\<close> in which the measured time reaches
  \<^verbatim>\<open>cycleDuration\<close>, the phase becomes the opposite one, that new phase is what is sent
  on the queue, \<^verbatim>\<open>cycleDuration\<close> becomes the new draw and \<^verbatim>\<open>lastUpdate\<close> the new
  clock reading. So from a new traffic light (red, nothing sent) the values sent are
  green, red, green, ... in strict alternation, whatever the clock and the draws are, and
  the current phase is the last value sent.
\<close>

theorem cycleThroughPhases_alternates:
  "(cycleDuration loc \<le> now_check t - lastUpdate loc \<longrightarrow>
      cycle_iteration t (light, loc)
        = (light\<lparr>currentPhase := toggle (currentPhase light),
                 messageQueue := messageQueue light @ [toggle (currentPhase light)]\<rparr>,
           \<lparr>cycleDuration = draw t, lastUpdate = now_reset t\<rparr>))
   \<and> toggle red = green \<and> toggle green = red
   \<and> messageQueue (fst (cycleThroughPhases firstDraw startTime ticks TrafficLight_new))
       = alternation green
           (length (messageQueue (fst (cycleThroughPhases firstDraw startTime ticks TrafficLight_new))))
   \<and> (\<forall>k. k < length (messageQueue (fst (cycleThroughPhases firstDraw startTime ticks TrafficLight_new)))
        \<longrightarrow> messageQueue (fst (cycleThroughPhases firstDraw startTime ticks TrafficLight_new)) ! k
            = (if even k then green else red))
   \<and> currentPhase (fst (cycleThroughPhases firstDraw startTime ticks TrafficLight_new))
       = (if messageQueue (fst (cycleThroughPhases firstDraw startTime ticks TrafficLight_new)) = []
          then red
          else last (messageQueue (fst (cycleThroughPhases firstDraw startTime ticks TrafficLight_new))))"
proof -
  let ?light = "fst (cycleThroughPhases firstDraw startTime ticks TrafficLight_new)"
  let ?n = "length (messageQueue ?light)"
  have inv: "alternating_light ?light"
    by (rule alternating_light_run)
  then have q: "messageQueue ?light = alternation green ?n"
    and p: "currentPhase ?light = (if even ?n then red else green)"
    by (simp_all add: alternating_light_def)
  have nth: "messageQueue ?light ! k = (if even k then green else red)" if "k < ?n" for k
  proof -
    have "alternation green ?n ! k = (if even k then green else toggle green)"
      using that by (rule alternation_nth)
    with q show ?thesis by (simp add: toggle_def)
  qed
  have last: "currentPhase ?light = (if messageQueue ?light = [] then red else last (messageQueue ?light))"
  proof (cases "messageQueue ?light = []")
    case True
    with p show ?thesis by simp
  next
    case False
    then have "last (messageQueue ?light) = messageQueue ?light ! (?n - 1)"
      by (rule last_conv_nth)
    also have "\<dots> = (if even (?n - 1) then green else red)"
      using False by (intro nth) simp
    also have "\<dots> = (if even ?n then red else green)"
      using False by (cases ?n) simp_all
    finally show ?thesis using p False by simp
  qed
  show ?thesis
    using q nth last by (auto simp: cycle_iteration_due toggle_def)
qed

theorem cycleThroughPhases_alternates_witness:
  "cycleThroughPhases 5000 0
     [\<lparr>now_check = 4999, now_reset = 4999, draw = 4000\<rparr>,
      \<lparr>now_check = 5000, now_reset = 5001, draw = 4500\<rparr>,
      \<lparr>now_check = 9501, now_reset = 9502, draw = 6000\<rparr>,
      \<lparr>now_check = 15502, now_reset = 15502, draw = 4000\<rparr>] TrafficLight_new
   = (\<lparr>currentPhase = green, messageQueue = [green, red, green]\<rparr>,
      \<lparr>cycleDuration = 4000, lastUpdate = 15502\<rparr>)
   \<and> cycle_iteration \<lparr>now_check = 5000, now_reset = 5001, draw = 4500\<rparr>
        (TrafficLight_new, \<lparr>cycleDuration = 5000, lastUpdate = 0\<rparr>)
   = (\<lparr>currentPhase = green, messageQueue = [green]\<rparr>,
      \<lparr>cycleDuration = 4500, lastUpdate = 5001\<rparr>)"
  using cycleThroughPhases_alternates
    [where loc = "\<lparr>cycleDuration = 5000, lastUpdate = 0\<rparr>"
      and t = "\<lparr>now_check = 5000, now_reset = 5001, draw = 4500\<rparr>"
      and light = TrafficLight_new and firstDraw = 5000 and startTime = 0
      and ticks = "[\<lparr>now_check = 4999, now_reset = 4999, draw = 4000\<rparr>,
        \<lparr>now_check = 5000, now_reset = 5001, draw = 4500\<rparr>,
        \<lparr>now_check = 9501, now_reset = 9502, draw = 6000\<rparr>,
        \<lparr>now_check = 15502, now_reset = 15502, draw = 4000\<rparr>]"]
  by (simp add: cycleThroughPhases_def cycle_iteration_def TrafficLight_new_def toggle_def
      send_def)

section \<open>Dwell durations\<close>

lemma cycle_iteration_changes_iff:
  "currentPhase (fst (cycle_iteration t (light, loc))) \<noteq> currentPhase light
     \<longleftrightarrow> cycleDuration loc \<le> now_check t - lastUpdate loc"
  by (cases "cycleDuration loc \<le> now_check t - lastUpdate loc")
     (simp_all add: cycle_iteration_due cycle_iteration_early toggle_neq)

lemma dwell_invariant:
  "in_dwell_range (cycleDuration (snd st)) \<Longrightarrow> \<forall>t \<in> set ticks. in_dwell_range (draw t) \<Longrightarrow>
   in_dwell_range (cycleDuration (snd (foldl (\<lambda>st t. cycle_iteration t st) st ticks)))
   \<and> (\<forall>(e, d) \<in> set (dwell_intervals (lastUpdate (snd st)) (cycleDuration (snd st))
                        (toggling ticks st)).
         in_dwell_range d \<and> d \<le> e)
   \<and> length (messageQueue (fst (foldl (\<lambda>st t. cycle_iteration t st) st ticks)))
       = length (messageQueue (fst st)) + length (toggling ticks st)"
proof (induction ticks arbitrary: st)
  case Nil
  then show ?case by simp
next
  case (Cons t ticks)
  obtain light loc where st: "st = (light, loc)" by (cases st)
  from Cons.prems have draws: "\<forall>t \<in> set ticks. in_dwell_range (draw t)"
    and this_draw: "in_dwell_range (draw t)"
    by simp_all
  show ?case
  proof (cases "cycleDuration loc \<le> now_check t - lastUpdate loc")
    case True
    let ?st' = "(light\<lparr>currentPhase := toggle (currentPhase light),
                      messageQueue := messageQueue light @ [toggle (currentPhase light)]\<rparr>,
                 \<lparr>cycleDuration = draw t, lastUpdate = now_reset t\<rparr>)"
    from True st have next_st: "cycle_iteration t st = ?st'"
      by (simp add: cycle_iteration_due)
    have "in_dwell_range (cycleDuration (snd ?st'))"
      using this_draw by simp
    from Cons.IH [OF this draws] Cons.prems(1) True st next_st show ?thesis
      by (simp add: toggle_neq)
  next
    case False
    with st have next_st: "cycle_iteration t st = st"
      by (simp add: cycle_iteration_early)
    from Cons.IH [OF Cons.prems(1) draws] next_st show ?thesis
      by simp
  qed
qed

text \<open>
  C8, as the code has it. A pass in which the measured time has reached
  \<^verbatim>\<open>cycleDuration\<close> changes the phase, takes the clock reading of line 188 as the new
  \<^verbatim>\<open>lastUpdate\<close> and the new draw as \<^verbatim>\<open>cycleDuration\<close>; any other pass changes
  nothing; so the phase changes only in a pass where the time measured since the reading
  of the previous toggle is at least the duration drawn then. Over a run, with draws in
  [4000, 6000]: the duration held is in [4000, 6000], there is one toggling pass per
  value sent, and every interval between consecutive toggles, from the reading after one
  to the reading before the next, is at least the duration drawn for it, hence at least
  4000 ms. The loop compares with \<open>\<ge>\<close> at whatever moment it comes to measure:
  nothing bounds the interval from above.
\<close>

theorem dwell_lower_bound:
  "(cycleDuration loc \<le> now_check t - lastUpdate loc \<longrightarrow>
      cycle_iteration t (light, loc)
        = (light\<lparr>currentPhase := toggle (currentPhase light),
                 messageQueue := messageQueue light @ [toggle (currentPhase light)]\<rparr>,
           \<lparr>cycleDuration = draw t, lastUpdate = now_reset t\<rparr>)
      \<and> currentPhase (fst (cycle_iteration t (light, loc))) \<noteq> currentPhase light)
   \<and> (\<not> cycleDuration loc \<le> now_check t - lastUpdate loc \<longrightarrow>
      cycle_iteration t (light, loc) = (light, loc))
   \<and> (currentPhase (fst (cycle_iteration t (light, loc))) \<noteq> currentPhase light \<longrightarrow>
      cycleDuration loc \<le> now_check t - lastUpdate loc)
   \<and> (in_dwell_range firstDraw \<and> (\<forall>t \<in> set ticks. in_dwell_range (draw t)) \<longrightarrow>
      in_dwell_range (cycleDuration (snd (cycleThroughPhases firstDraw startTime ticks light)))
      \<and> length (messageQueue (fst (cycleThroughPhases firstDraw startTime ticks light)))
          = length (messageQueue light)
            + length (toggling ticks (light, \<lparr>cycleDuration = firstDraw, lastUpdate = startTime\<rparr>))
      \<and> (\<forall>(e, d) \<in> set (dwell_intervals startTime firstDraw
              (toggling ticks (light, \<lparr>cycleDuration = firstDraw, lastUpdate = startTime\<rparr>))).
            in_dwell_range d \<and> d \<le> e \<and> 4000 \<le> e))"
proof (intro conjI impI)
  assume due: "cycleDuration loc \<le> now_check t - lastUpdate loc"
  then show "cycle_iteration t (light, loc)
        = (light\<lparr>currentPhase := toggle (currentPhase light),
                 messageQueue := messageQueue light @ [toggle (currentPhase light)]\<rparr>,
           \<lparr>cycleDuration = draw t, lastUpdate = now_reset t\<rparr>)"
    by (rule cycle_iteration_due)
  from due show "currentPhase (fst (cycle_iteration t (light, loc))) \<noteq> currentPhase light"
    by (simp add: cycle_iteration_changes_iff)
next
  show "cycle_iteration t (light, loc) = (light, loc)"
    if "\<not> cycleDuration loc \<le> now_check t - lastUpdate loc"
    using that by (rule cycle_iteration_early)
next
  show "cycleDuration loc \<le> now_check t - lastUpdate loc"
    if "currentPhase (fst (cycle_iteration t (light, loc))) \<noteq> currentPhase light"
    using that by (simp add: cycle_iteration_changes_iff)
next
  let ?st = "(light, \<lparr>cycleDuration = firstDraw, lastUpdate = startTime\<rparr>)"
  assume "in_dwell_range firstDraw \<and> (\<forall>t \<in> set ticks. in_dwell_range (draw t))"
  then have first: "in_dwell_range (cycleDuration (snd ?st))"
    and draws: "\<forall>t \<in> set ticks. in_dwell_range (draw t)"
    by simp_all
  note inv = dwell_invariant [OF first draws]
  from inv show "in_dwell_range (cycleDuration (snd (cycleThroughPhases firstDraw startTime ticks light)))"
    by (simp add: cycleThroughPhases_def)
  from inv show "length (messageQueue (fst (cycleThroughPhases firstDraw startTime ticks light)))
      = length (messageQueue light) + length (toggling ticks ?st)"
    by (simp add: cycleThroughPhases_def)
  from inv have "\<forall>(e, d) \<in> set (dwell_intervals startTime firstDraw (toggling ticks ?st)).
      in_dwell_range d \<and> d \<le> e"
    by simp
  then show "\<forall>(e, d) \<in> set (dwell_intervals startTime firstDraw (toggling ticks ?st)).
      in_dwell_range d \<and> d \<le> e \<and> 4000 \<le> e"
    by (auto simp: in_dwell_range_def)
qed

theorem dwell_lower_bound_witness:
  "in_dwell_range 6000 \<and> in_dwell_range 5000
   \<and> cycleThroughPhases 6000 0
        [\<lparr>now_check = 6000, now_reset = 6002, draw = 6000\<rparr>,
         \<lparr>now_check = 12001, now_reset = 12001, draw = 5000\<rparr>,
         \<lparr>now_check = 12003, now_reset = 12003, draw = 5000\<rparr>] TrafficLight_new
       = (\<lparr>currentPhase = red, messageQueue = [green, red]\<rparr>,
          \<lparr>cycleDuration = 5000, lastUpdate = 12003\<rparr>)
   \<and> toggling
        [\<lparr>now_check = 6000, now_reset = 6002, draw = 6000\<rparr>,
         \<lparr>now_check = 12001, now_reset = 12001, draw = 5000\<rparr>,
         \<lparr>now_check = 12003, now_reset = 12003, draw = 5000\<rparr>]
        (TrafficLight_new, \<lparr>cycleDuration = 6000, lastUpdate = 0\<rparr>)
       = [\<lparr>now_check = 6000, now_reset = 6002, draw = 6000\<rparr>,
          \<lparr>now_check = 12003, now_reset = 12003, draw = 5000\<rparr>]
   \<and> list_all (\<lambda>(e, d). in_dwell_range d \<and> d \<le> e \<and> 4000 \<le> e)
        (dwell_intervals 0 6000
          (toggling
            [\<lparr>now_check = 6000, now_reset = 6002, draw = 6000\<rparr>,
             \<lparr>now_check = 12001, now_reset = 12001, draw = 5000\<rparr>,
             \<lparr>now_check = 12003, now_reset = 12003, draw = 5000\<rparr>]
            (TrafficLight_new, \<lparr>cycleDuration = 6000, lastUpdate = 0\<rparr>)))
   \<and> cycle_iteration \<lparr>now_check = 12003, now_reset = 12003, draw = 5000\<rparr>
        (\<lparr>currentPhase = green, messageQueue = [green]\<rparr>,
         \<lparr>cycleDuration = 6000, lastUpdate = 6002\<rparr>)
       = (\<lparr>currentPhase = red, messageQueue = [green, red]\<rparr>,
          \<lparr>cycleDuration = 5000, lastUpdate = 12003\<rparr>)"
  using dwell_lower_bound
    [where loc = "\<lparr>cycleDuration = 6000, lastUpdate = 6002\<rparr>"
      and t = "\<lparr>now_check = 12003, now_reset = 12003, draw = 5000\<rparr>"
      and light = "\<lparr>currentPhase = green, messageQueue = [green]\<rparr>"
      and firstDraw = 6000 and startTime = 0
      and ticks = "[\<lparr>now_check = 6000, now_reset = 6002, draw = 6000\<rparr>,
         \<lparr>now_check = 12001, now_reset = 12001, draw = 5000\<rparr>,
         \<lparr>now_check = 12003, now_reset = 12003, draw = 5000\<rparr>]"]
  by (simp add: cycleThroughPhases_def cycle_iteration_def TrafficLight_new_def toggle_def
      send_def in_dwell_range_def)

text \<open>
  The draws are 6000, 6000 and 5000, all in range. The loop toggles when it reads
  6000 ms and takes the reading 6002 ms as its new reference; at its next look it measures
  5999 ms (too early), at the one after 6001 ms, where it toggles: the second toggle comes
  at least 6001 ms after the first.
\<close>

theorem dwell_upper_bound_counterexample:
  "dwell_intervals 0 6000
     (toggling
        [\<lparr>now_check = 6000, now_reset = 6002, draw = 6000\<rparr>,
         \<lparr>now_check = 12001, now_reset = 12001, draw = 5000\<rparr>,
         \<lparr>now_check = 12003, now_reset = 12003, draw = 5000\<rparr>]
        (TrafficLight_new, \<lparr>cycleDuration = 6000, lastUpdate = 0\<rparr>))
   = [(6000, 6000), (6001, 6000)]
   \<and> in_dwell_range 6000 \<and> in_dwell_range 5000 \<and> \<not> in_dwell_range 6001"
  by (simp add: cycle_iteration_def TrafficLight_new_def toggle_def send_def in_dwell_range_def)

section \<open>Invariants of the runs\<close>

lemma run_append:
  "run (es @ es') w = (case run es w of Inl err \<Rightarrow> Inl err | Inr w' \<Rightarrow> run es' w')"
  by (induction es arbitrary: w) (simp_all split: sum.splits)

lemma run_snoc:
  "run (es @ [e]) w = (case run es w of Inl err \<Rightarrow> Inl err | Inr w' \<Rightarrow> step e w')"
  by (simp add: run_append split: sum.splits)

lemma processVehicleQueue_idle:
  "vehicles (waitingVehicles i) = [] \<or> isBlocked i \<Longrightarrow> processVehicleQueue i s = Inr (i, s)"
  by (auto simp: processVehicleQueue_def getSize_def)

lemma processVehicleQueue_grant:
  assumes "vehicles (waitingVehicles i) = v # vs" and "promises (waitingVehicles i) = p # ps"
    and "p \<notin> set s" and "\<not> isBlocked i"
  shows "processVehicleQueue i s
     = Inr (i\<lparr>isBlocked := True,
              waitingVehicles := (waitingVehicles i)\<lparr>vehicles := vs, promises := ps\<rparr>\<rparr>, s @ [p])"
  using assms
  by (simp add: processVehicleQueue_def getSize_def setIsBlocked_def
      permitEntryToFirstInQueue_def set_value_def)

lemma queue_inv_front:
  assumes "queue_inv w" and "vehicles (waitingVehicles (intersection w)) \<noteq> []"
  obtains v vs p ps where "vehicles (waitingVehicles (intersection w)) = v # vs"
    and "promises (waitingVehicles (intersection w)) = p # ps"
    and "p \<notin> set (satisfied w)" and "length vs = length ps"
proof -
  from assms obtain v vs p ps where
    vs: "vehicles (waitingVehicles (intersection w)) = v # vs"
    and ps: "promises (waitingVehicles (intersection w)) = p # ps"
    and len: "length vs = length ps"
    unfolding queue_inv_def
    by (cases "vehicles (waitingVehicles (intersection w))";
        cases "promises (waitingVehicles (intersection w))") auto
  from assms(1) ps have "distinct (satisfied w @ p # ps)"
    unfolding queue_inv_def by (metis distinct_upt)
  then have "p \<notin> set (satisfied w)" by auto
  with vs ps len show thesis by (blast intro: that)
qed

lemma step_process_cases:
  assumes "queue_inv w"
  shows "(vehicles (waitingVehicles (intersection w)) = [] \<or> isBlocked (intersection w))
           \<and> step ProcessVehicleQueue w = Inr w
         \<or> (\<exists>v vs p ps.
              vehicles (waitingVehicles (intersection w)) = v # vs
              \<and> promises (waitingVehicles (intersection w)) = p # ps
              \<and> length vs = length ps
              \<and> \<not> isBlocked (intersection w)
              \<and> step ProcessVehicleQueue w
                  = Inr (w\<lparr>intersection := (intersection w)\<lparr>isBlocked := True,
                            waitingVehicles :=
                              (waitingVehicles (intersection w))\<lparr>vehicles := vs, promises := ps\<rparr>\<rparr>,
                          satisfied := satisfied w @ [p]\<rparr>))"
proof (cases "vehicles (waitingVehicles (intersection w)) = [] \<or> isBlocked (intersection w)")
  case True
  then show ?thesis by (simp add: processVehicleQueue_idle)
next
  case False
  then have ne: "vehicles (waitingVehicles (intersection w)) \<noteq> []"
    and nb: "\<not> isBlocked (intersection w)" by simp_all
  from assms ne obtain v vs p ps where
    front: "vehicles (waitingVehicles (intersection w)) = v # vs"
      "promises (waitingVehicles (intersection w)) = p # ps"
      "p \<notin> set (satisfied w)" "length vs = length ps"
    by (rule queue_inv_front)
  from processVehicleQueue_grant [OF front(1) front(2) front(3) nb] front nb
  show ?thesis by simp
qed

lemma queue_inv_add:
  "queue_inv w \<Longrightarrow> queue_inv (addVehicleToQueue vehicle w)"
  by (auto simp: queue_inv_def addVehicleToQueue_def Let_def pushBack_def
      split: pc.splits option.splits)

lemma queue_inv_step:
  assumes "queue_inv w"
  shows "\<exists>w'. step e w = Inr w' \<and> queue_inv w'"
proof (cases e)
  case (AddVehicleToQueue vehicle)
  with assms show ?thesis by (simp add: queue_inv_add)
next
  case ProcessVehicleQueue
  from step_process_cases [OF assms] assms ProcessVehicleQueue show ?thesis
    by (auto simp: queue_inv_def)
next
  case (VehicleHasLeft vehicle)
  with assms show ?thesis
    by (simp add: queue_inv_def vehicleHasLeft_def setIsBlocked_def)
next
  case (CycleThroughPhases t)
  with assms show ?thesis
    by (simp add: queue_inv_def split: prod.splits)
qed

lemma queue_inv_new: "queue_inv (World_new firstDraw startTime)"
  by (simp add: queue_inv_def World_new_def Intersection_new_def WaitingVehicles_new_def)

lemma queue_inv_run:
  "queue_inv w \<Longrightarrow> \<exists>w'. run es w = Inr w' \<and> queue_inv w'"
proof (induction es arbitrary: w)
  case Nil
  then show ?case by simp
next
  case (Cons e es)
  from queue_inv_step [OF Cons.prems, of e] obtain w1 where
    "step e w = Inr w1" "queue_inv w1" by blast
  with Cons.IH [of w1] show ?case by simp
qed

lemma queue_inv_reachable:
  "run es (World_new firstDraw startTime) = Inr w \<Longrightarrow> queue_inv w"
  using queue_inv_run [OF queue_inv_new, of es firstDraw startTime] by auto

lemma addVehicleToQueue_admission:
  "isBlocked (intersection (addVehicleToQueue vehicle w)) = isBlocked (intersection w)
   \<and> satisfied (addVehicleToQueue vehicle w) = satisfied w"
  by (auto simp: addVehicleToQueue_def Let_def split: pc.splits option.splits)

section \<open>The blocked flag\<close>

text \<open>
  C2. In every world that a run of steps reaches from the start, every step succeeds, and:
  the blocked flag goes from false to true only in a pass of \<^verbatim>\<open>processVehicleQueue\<close> that
  finds the queue non-empty and grants the front ticket (removing the front entry); it goes
  from true to false only in a call of \<^verbatim>\<open>vehicleHasLeft\<close>; a pass of
  \<^verbatim>\<open>processVehicleQueue\<close> that finds the flag true changes nothing, so grants nothing;
  and a ticket is granted only by a pass of \<^verbatim>\<open>processVehicleQueue\<close> that takes the flag
  from false to true.
\<close>

theorem blocked_flag_transitions:
  "run es (World_new firstDraw startTime) = Inr w \<longrightarrow>
     (\<exists>w'. step e w = Inr w')
     \<and> (\<forall>w'. step e w = Inr w' \<longrightarrow>
          (\<not> isBlocked (intersection w) \<and> isBlocked (intersection w') \<longrightarrow>
             e = ProcessVehicleQueue
             \<and> vehicles (waitingVehicles (intersection w)) \<noteq> []
             \<and> satisfied w' = satisfied w @ [hd (promises (waitingVehicles (intersection w)))]
             \<and> vehicles (waitingVehicles (intersection w'))
                 = tl (vehicles (waitingVehicles (intersection w)))
             \<and> promises (waitingVehicles (intersection w'))
                 = tl (promises (waitingVehicles (intersection w))))
          \<and> (isBlocked (intersection w) \<and> \<not> isBlocked (intersection w') \<longrightarrow>
               (\<exists>vehicle. e = VehicleHasLeft vehicle))
          \<and> (isBlocked (intersection w) \<and> e = ProcessVehicleQueue \<longrightarrow> w' = w)
          \<and> (satisfied w' \<noteq> satisfied w \<longrightarrow>
               e = ProcessVehicleQueue \<and> \<not> isBlocked (intersection w)
               \<and> isBlocked (intersection w')))"
proof
  assume "run es (World_new firstDraw startTime) = Inr w"
  then have inv: "queue_inv w" by (rule queue_inv_reachable)
  have total: "\<exists>w'. step e w = Inr w'"
    using queue_inv_step [OF inv, of e] by blast
  have trans: "(\<not> isBlocked (intersection w) \<and> isBlocked (intersection w') \<longrightarrow>
             e = ProcessVehicleQueue
             \<and> vehicles (waitingVehicles (intersection w)) \<noteq> []
             \<and> satisfied w' = satisfied w @ [hd (promises (waitingVehicles (intersection w)))]
             \<and> vehicles (waitingVehicles (intersection w'))
                 = tl (vehicles (waitingVehicles (intersection w)))
             \<and> promises (waitingVehicles (intersection w'))
                 = tl (promises (waitingVehicles (intersection w))))
          \<and> (isBlocked (intersection w) \<and> \<not> isBlocked (intersection w') \<longrightarrow>
               (\<exists>vehicle. e = VehicleHasLeft vehicle))
          \<and> (isBlocked (intersection w) \<and> e = ProcessVehicleQueue \<longrightarrow> w' = w)
          \<and> (satisfied w' \<noteq> satisfied w \<longrightarrow>
               e = ProcessVehicleQueue \<and> \<not> isBlocked (intersection w)
               \<and> isBlocked (intersection w'))"
    if st: "step e w = Inr w'" for w'
  proof (cases e)
    case (AddVehicleToQueue vehicle)
    with st have "w' = addVehicleToQueue vehicle w" by simp
    with AddVehicleToQueue show ?thesis
      by (simp add: addVehicleToQueue_admission)
  next
    case ProcessVehicleQueue
    from step_process_cases [OF inv] st ProcessVehicleQueue show ?thesis
      by auto
  next
    case (VehicleHasLeft vehicle)
    with st show ?thesis
      by (auto simp: vehicleHasLeft_def setIsBlocked_def)
  next
    case (CycleThroughPhases t)
    with st show ?thesis
      by (auto split: prod.splits)
  qed
  from total trans show "(\<exists>w'. step e w = Inr w')
     \<and> (\<forall>w'. step e w = Inr w' \<longrightarrow>
          (\<not> isBlocked (intersection w) \<and> isBlocked (intersection w') \<longrightarrow>
             e = ProcessVehicleQueue
             \<and> vehicles (waitingVehicles (intersection w)) \<noteq> []
             \<and> satisfied w' = satisfied w @ [hd (promises (waitingVehicles (intersection w)))]
             \<and> vehicles (waitingVehicles (intersection w'))
                 = tl (vehicles (waitingVehicles (intersection w)))
             \<and> promises (waitingVehicles (intersection w'))
                 = tl (promises (waitingVehicles (intersection w))))
          \<and> (isBlocked (intersection w) \<and> \<not> isBlocked (intersection w') \<longrightarrow>
               (\<exists>vehicle. e = VehicleHasLeft vehicle))
          \<and> (isBlocked (intersection w) \<and> e = ProcessVehicleQueue \<longrightarrow> w' = w)
          \<and> (satisfied w' \<noteq> satisfied w \<longrightarrow>
               e = ProcessVehicleQueue \<and> \<not> isBlocked (intersection w)
               \<and> isBlocked (intersection w')))"
    by blast
qed

lemmas world_eval =
  World_new_def Intersection_new_def WaitingVehicles_new_def TrafficLight_new_def frame_new_def
  addVehicleToQueue_def pushBack_def processVehicleQueue_def getSize_def setIsBlocked_def
  permitEntryToFirstInQueue_def set_value_def vehicleHasLeft_def getCurrentPhase_def
  receive_def cycle_iteration_def toggle_def send_def Let_def

theorem blocked_flag_transitions_witness:
  "(case run [AddVehicleToQueue (1 :: nat), AddVehicleToQueue 1] (World_new 5000 0) of
      Inl err \<Rightarrow> False
    | Inr w \<Rightarrow>
        (case step ProcessVehicleQueue w of
           Inl err \<Rightarrow> False
         | Inr w' \<Rightarrow>
             \<not> isBlocked (intersection w) \<and> isBlocked (intersection w')
             \<and> promises (waitingVehicles (intersection w)) = [0]
             \<and> satisfied w = [] \<and> satisfied w' = [0]
             \<and> vehicles (waitingVehicles (intersection w')) = []
             \<and> step ProcessVehicleQueue w' = Inr w'
             \<and> \<not> isBlocked (intersection (projr (step (VehicleHasLeft 1) w')))))"
  using blocked_flag_transitions
    [of "[AddVehicleToQueue (1 :: nat), AddVehicleToQueue 1]" 5000 0
      "addVehicleToQueue 1 (addVehicleToQueue 1 (World_new 5000 0))" ProcessVehicleQueue]
  by (simp add: world_eval)

section \<open>Admission first, light second\<close>





















section \<open>Where the phase is checked before waiting\<close>

lemma waitForGreen_ignores_phase:
  "waitForGreen (light\<lparr>currentPhase := ph\<rparr>)
     = (case waitForGreen light of
          Returned l \<Rightarrow> Returned (l\<lparr>currentPhase := ph\<rparr>)
        | Blocked l \<Rightarrow> Blocked (l\<lparr>currentPhase := ph\<rparr>))"
  by (simp add: waitForGreen_eq)

lemma addVehicleToQueue_receive_red:
  assumes "pc (frames w vehicle) = InWaitForGreen"
    and "messageQueue (trafficLight (intersection w)) = red # rest"
  shows "pc (frames (addVehicleToQueue vehicle w) vehicle) = InWaitForGreen
    \<and> trafficLight (intersection (addVehicleToQueue vehicle w))
        = (trafficLight (intersection w))\<lparr>messageQueue := rest\<rparr>"
  using assms by (simp add: addVehicleToQueue_def receive_def Let_def)

lemma addVehicleToQueue_receive_green:
  assumes "pc (frames w vehicle) = InWaitForGreen"
    and "messageQueue (trafficLight (intersection w)) = green # rest"
  shows "pc (frames (addVehicleToQueue vehicle w) vehicle) = HasReturned
    \<and> trafficLight (intersection (addVehicleToQueue vehicle w))
        = (trafficLight (intersection w))\<lparr>messageQueue := rest\<rparr>"
  using assms by (simp add: addVehicleToQueue_def receive_def Let_def)

text \<open>
  The steps of a caller in \<^verbatim>\<open>waitForGreen\<close>, taken without interruption, do what the
  loop of \<^verbatim>\<open>waitForGreen\<close> does: one step per value received.
\<close>

lemma waitForGreen_steps:
  assumes "pc (frames w vehicle) = InWaitForGreen"
    and "messageQueue (trafficLight (intersection w)) = reds @ green # rest"
    and "green \<notin> set reds"
  shows "pc (frames ((addVehicleToQueue vehicle ^^ Suc (length reds)) w) vehicle) = HasReturned
    \<and> Returned (trafficLight (intersection ((addVehicleToQueue vehicle ^^ Suc (length reds)) w)))
        = waitForGreen (trafficLight (intersection w))"
  using assms
proof (induction reds arbitrary: w)
  case Nil
  then have q: "messageQueue (trafficLight (intersection w)) = green # rest" by simp
  have "waitForGreen (trafficLight (intersection w))
      = Returned ((trafficLight (intersection w))\<lparr>messageQueue := rest\<rparr>)"
    using q by (simp add: waitForGreen_eq)
  with addVehicleToQueue_receive_green [OF Nil.prems(1) q] show ?case by simp
next
  case (Cons r reds)
  then have r: "r = red" by (cases r) simp_all
  with Cons.prems have q: "messageQueue (trafficLight (intersection w)) = red # (reds @ green # rest)"
    by simp
  let ?w = "addVehicleToQueue vehicle w"
  from addVehicleToQueue_receive_red [OF Cons.prems(1) q]
  have pc1: "pc (frames ?w vehicle) = InWaitForGreen"
    and l1: "trafficLight (intersection ?w)
      = (trafficLight (intersection w))\<lparr>messageQueue := reds @ green # rest\<rparr>"
    by simp_all
  from l1 have q1: "messageQueue (trafficLight (intersection ?w)) = reds @ green # rest"
    by simp
  from Cons.prems(3) have g1: "green \<notin> set reds" by simp
  note ih = Cons.IH [OF pc1 q1 g1]
  have "waitForGreen (trafficLight (intersection ?w)) = waitForGreen (trafficLight (intersection w))"
    using l1 q by (simp add: waitForGreen_eq)
  with ih show ?case
    by (simp add: funpow_swap1)
qed

text \<open>
  C4, as the code has it. The check before the wait is made by the caller:
  \<^verbatim>\<open>addVehicleToQueue\<close> reads \<^verbatim>\<open>getCurrentPhase()\<close> and, when the phase is green, returns
  without touching the queue of phases; only when it is red does it go into
  \<^verbatim>\<open>waitForGreen\<close>. \<^verbatim>\<open>waitForGreen\<close> does not read the current phase (its result is
  the same whatever the phase is): it starts with a \<^verbatim>\<open>receive\<close>, so it is blocked on an
  empty queue, and when it returns it has taken at least one value from the queue.
\<close>

theorem check_then_block_in_caller:
  "(pc (frames w vehicle) = AtPhaseCheck
      \<and> getCurrentPhase (trafficLight (intersection w)) = green \<longrightarrow>
      pc (frames (addVehicleToQueue vehicle w) vehicle) = HasReturned
      \<and> trafficLight (intersection (addVehicleToQueue vehicle w)) = trafficLight (intersection w))
   \<and> (pc (frames w vehicle) = AtPhaseCheck
      \<and> getCurrentPhase (trafficLight (intersection w)) = red \<longrightarrow>
      pc (frames (addVehicleToQueue vehicle w) vehicle) = InWaitForGreen
      \<and> trafficLight (intersection (addVehicleToQueue vehicle w)) = trafficLight (intersection w))
   \<and> waitForGreen (light\<lparr>currentPhase := ph\<rparr>)
       = (case waitForGreen light of
            Returned l \<Rightarrow> Returned (l\<lparr>currentPhase := ph\<rparr>)
          | Blocked l \<Rightarrow> Blocked (l\<lparr>currentPhase := ph\<rparr>))
   \<and> (messageQueue light = [] \<longrightarrow> waitForGreen light = Blocked light)
   \<and> (waitForGreen light = Returned light' \<longrightarrow>
        length (messageQueue light') < length (messageQueue light))"
proof (intro conjI impI)
  assume "pc (frames w vehicle) = AtPhaseCheck
      \<and> getCurrentPhase (trafficLight (intersection w)) = green"
  then show "pc (frames (addVehicleToQueue vehicle w) vehicle) = HasReturned"
    and "trafficLight (intersection (addVehicleToQueue vehicle w)) = trafficLight (intersection w)"
    by (simp_all add: addVehicleToQueue_def)
next
  assume "pc (frames w vehicle) = AtPhaseCheck
      \<and> getCurrentPhase (trafficLight (intersection w)) = red"
  then show "pc (frames (addVehicleToQueue vehicle w) vehicle) = InWaitForGreen"
    and "trafficLight (intersection (addVehicleToQueue vehicle w)) = trafficLight (intersection w)"
    by (simp_all add: addVehicleToQueue_def)
next
  show "waitForGreen (light\<lparr>currentPhase := ph\<rparr>)
       = (case waitForGreen light of
            Returned l \<Rightarrow> Returned (l\<lparr>currentPhase := ph\<rparr>)
          | Blocked l \<Rightarrow> Blocked (l\<lparr>currentPhase := ph\<rparr>))"
    by (rule waitForGreen_ignores_phase)
next
  assume "messageQueue light = []"
  then show "waitForGreen light = Blocked light"
    by (simp add: waitForGreen_eq)
next
  assume "waitForGreen light = Returned light'"
  then have "green \<in> set (messageQueue light)"
    and "light' = light\<lparr>messageQueue := tl (dropWhile (\<lambda>p. p \<noteq> green) (messageQueue light))\<rparr>"
    by (simp_all add: waitForGreen_eq split: if_splits)
  moreover have "length (tl (dropWhile (\<lambda>p. p \<noteq> green) (messageQueue light)))
      < length (messageQueue light)" if "green \<in> set (messageQueue light)"
  proof -
    from that have "dropWhile (\<lambda>p. p \<noteq> green) (messageQueue light) \<noteq> []"
      by simp
    then have "length (tl (dropWhile (\<lambda>p. p \<noteq> green) (messageQueue light)))
        < length (dropWhile (\<lambda>p. p \<noteq> green) (messageQueue light))"
      by (cases "dropWhile (\<lambda>p. p \<noteq> green) (messageQueue light)") simp_all
    also have "\<dots> \<le> length (messageQueue light)"
      by (rule length_dropWhile_le)
    finally show ?thesis .
  qed
  ultimately show "length (messageQueue light') < length (messageQueue light)"
    by simp
qed

theorem waitForGreen_green_phase_counterexample:
  "getCurrentPhase \<lparr>currentPhase = green, messageQueue = [red, green]\<rparr> = green
   \<and> waitForGreen \<lparr>currentPhase = green, messageQueue = [red, green]\<rparr>
       = Returned \<lparr>currentPhase = green, messageQueue = []\<rparr>
   \<and> getCurrentPhase \<lparr>currentPhase = green, messageQueue = []\<rparr> = green
   \<and> waitForGreen \<lparr>currentPhase = green, messageQueue = []\<rparr>
       = Blocked \<lparr>currentPhase = green, messageQueue = []\<rparr>"
  by (simp add: waitForGreen_eq getCurrentPhase_def)

theorem check_then_block_in_caller_witness:
  "(case run [AddVehicleToQueue (1 :: nat), AddVehicleToQueue 1, ProcessVehicleQueue,
              AddVehicleToQueue 1, AddVehicleToQueue 1,
              CycleThroughPhases \<lparr>now_check = 5000, now_reset = 5000, draw = 4500\<rparr>]
          (World_new 5000 0) of
      Inl err \<Rightarrow> False
    | Inr w \<Rightarrow>
        pc (frames w 1) = AtPhaseCheck
        \<and> getCurrentPhase (trafficLight (intersection w)) = green
        \<and> messageQueue (trafficLight (intersection w)) = [green]
        \<and> pc (frames (addVehicleToQueue 1 w) 1) = HasReturned
        \<and> messageQueue (trafficLight (intersection (addVehicleToQueue 1 w))) = [green])
   \<and> waitForGreen \<lparr>currentPhase = green, messageQueue = []\<rparr>
       = Blocked \<lparr>currentPhase = green, messageQueue = []\<rparr>
   \<and> waitForGreen \<lparr>currentPhase = red, messageQueue = [red, green, red]\<rparr>
       = Returned \<lparr>currentPhase = red, messageQueue = [red]\<rparr>"
  using check_then_block_in_caller
    [where w = "projr (run [AddVehicleToQueue (1 :: nat), AddVehicleToQueue 1, ProcessVehicleQueue,
              AddVehicleToQueue 1, AddVehicleToQueue 1,
              CycleThroughPhases \<lparr>now_check = 5000, now_reset = 5000, draw = 4500\<rparr>]
          (World_new 5000 0))" and vehicle = 1
      and light = "\<lparr>currentPhase = green, messageQueue = []\<rparr>" and ph = red
      and light' = "\<lparr>currentPhase = green, messageQueue = []\<rparr>"]
  by (simp add: world_eval waitForGreen_eq)

end
